theory Spec2Isabelle
  imports Main
begin

section \<open>Strings of the flow log parser\<close>

text \<open>
  The program is \<^verbatim>\<open>main.mjs\<close>. Its strings are JavaScript strings; a \<^typ>\<open>char\<close>
  stands here for one code unit in the range U+0000 .. U+00FF, which is closed under
  every string operation the program uses (\<^verbatim>\<open>trim\<close>, \<^verbatim>\<open>split\<close>,
  \<^verbatim>\<open>toLowerCase\<close>, \<^verbatim>\<open>parseInt\<close>, template strings).
\<close>

text \<open>
  White space and line terminators of ECMAScript in that range: TAB, LF, VT, FF, CR,
  SPACE and NO-BREAK SPACE. \<^verbatim>\<open>String.prototype.trim\<close> and the prefix skipped by
  \<^verbatim>\<open>parseInt\<close> use the same set.
\<close>

definition isWhiteSpace :: "char \<Rightarrow> bool" where
  "isWhiteSpace c =
     (c = CHR 0x09 \<or> c = CHR 0x0A \<or> c = CHR 0x0B \<or> c = CHR 0x0C \<or> c = CHR 0x0D
      \<or> c = CHR 0x20 \<or> c = CHR 0xA0)"

text \<open>\<^verbatim>\<open>s.trim()\<close>: white space removed at both ends.\<close>

definition trim :: "string \<Rightarrow> string" where
  "trim s = rev (dropWhile isWhiteSpace (rev (dropWhile isWhiteSpace s)))"

text \<open>
  \<^verbatim>\<open>s.split(sep)\<close> for a separator of one character: every occurrence of the
  separator ends a token, so the empty string gives one empty token and two adjacent
  separators give an empty token between them. A character that is not the separator
  joins the first token of the rest; the rest always has a first token, so the branch
  for an empty token list is never taken.
\<close>

fun split_on :: "char \<Rightarrow> string \<Rightarrow> string list" where
  "split_on sep [] = [Nil]"
| "split_on sep (x # xs) =
     (if x = sep then [] # split_on sep xs
      else (case split_on sep xs of
              [] \<Rightarrow> [x] # []
            | t # ts \<Rightarrow> (x # t) # ts))"

text \<open>
  \<^verbatim>\<open>s.toLowerCase()\<close>: in the range U+0000 .. U+00FF the letters with a lower-case
  form are A .. Z and U+00C0 .. U+00DE without the multiplication sign U+00D7; the
  lower-case form is 32 code units further on.
\<close>

definition toLower :: "char \<Rightarrow> char" where
  "toLower c =
     (let n = (of_char c :: nat)
      in if (65 \<le> n \<and> n \<le> 90) \<or> (192 \<le> n \<and> n \<le> 222 \<and> n \<noteq> 215)
         then char_of (n + 32) else c)"

definition toLowerCase :: "string \<Rightarrow> string" where
  "toLowerCase s = map toLower s"

text \<open>
  A value read from an object or an array is a string or \<^verbatim>\<open>undefined\<close>
  (\<^term>\<open>None\<close>). Inside a template string \<^verbatim>\<open>undefined\<close> prints as its name.
\<close>

definition js_str :: "string option \<Rightarrow> string" where
  "js_str v = (case v of None \<Rightarrow> ''undefined'' | Some s \<Rightarrow> s)"

text \<open>\<^verbatim>\<open>arr[i]\<close>: \<^verbatim>\<open>undefined\<close> beyond the end of the array.\<close>

definition at :: "'a list \<Rightarrow> nat \<Rightarrow> 'a option" where
  "at xs i = (if i < length xs then Some (xs ! i) else None)"

subsection \<open>parseInt with radix 10\<close>

definition isDigit :: "char \<Rightarrow> bool" where
  "isDigit c = (48 \<le> (of_char c :: nat) \<and> (of_char c :: nat) \<le> 57)"

definition digitValue :: "char \<Rightarrow> nat" where
  "digitValue c = of_char c - 48"

definition decimal :: "string \<Rightarrow> nat" where
  "decimal ds = foldl (\<lambda>acc d. 10 * acc + digitValue d) 0 ds"

text \<open>
  \<^verbatim>\<open>parseInt(value, 10)\<close>: leading white space is skipped, one sign is accepted, and
  the longest prefix of decimal digits that follows is the number; whatever comes after
  the digits is ignored. Without a digit the result is \<^verbatim>\<open>NaN\<close>, here \<^term>\<open>None\<close>.
  The number is the exact integer: the program uses it only as a key of the protocol
  table, whose keys are small (IANA protocol numbers), and a JavaScript number is exact
  below \<open>2 ^ 53\<close>.
\<close>

definition parseInt :: "string \<Rightarrow> int option" where
  "parseInt inputString =
     (let S = dropWhile isWhiteSpace inputString;
          sign = (if S \<noteq> [] \<and> hd S = CHR ''-'' then - 1 else 1 :: int);
          S' = (if S \<noteq> [] \<and> (hd S = CHR ''+'' \<or> hd S = CHR ''-'') then tl S else S);
          Z = takeWhile isDigit S'
      in if Z = [] then None else Some (sign * int (decimal Z)))"

section \<open>Flow records\<close>

definition AVAILABLE_FIELDS_DEFAULT :: "string list" where
  "AVAILABLE_FIELDS_DEFAULT =
     [''version'', ''account-id'', ''interface-id'', ''srcaddr'', ''dstaddr'', ''srcport'',
      ''dstport'', ''protocol'', ''packets'', ''bytes'', ''start'', ''end'', ''action'',
      ''log-status'']"

text \<open>
  The table \<^verbatim>\<open>protocol_numbers\<close> is imported from \<^verbatim>\<open>iana-protocol-numbers.mjs\<close> and
  is a parameter of the model: it maps a protocol number to the \<^verbatim>\<open>name\<close> of its
  entry, and \<^term>\<open>None\<close> where \<^verbatim>\<open>protocol_numbers[n]\<close> is \<^verbatim>\<open>undefined\<close>.
\<close>

type_synonym protocol_table = "int \<rightharpoonup> string"

datatype js_error = TypeError

text \<open>
  The body of the \<^verbatim>\<open>try\<close> block of \<^verbatim>\<open>handleFields\<close>. Reading \<^verbatim>\<open>.name\<close> of
  \<^verbatim>\<open>undefined\<close> throws a TypeError; with \<^verbatim>\<open>NaN\<close> as the index the entry is
  \<^verbatim>\<open>undefined\<close> as well.
\<close>

definition protocolName :: "protocol_table \<Rightarrow> string \<Rightarrow> js_error + string" where
  "protocolName protocol_numbers v =
     (case parseInt v of
        None \<Rightarrow> Inl TypeError
      | Some IANAInt \<Rightarrow>
          (case protocol_numbers IANAInt of
             None \<Rightarrow> Inl TypeError
           | Some nm \<Rightarrow> Inr nm))"

definition handleFields :: "protocol_table \<Rightarrow> string \<Rightarrow> string \<Rightarrow> string" where
  "handleFields protocol_numbers key v =
     (if key = ''protocol''
      then (case protocolName protocol_numbers v of
              Inr nm \<Rightarrow> nm
            | Inl err \<Rightarrow> v)
      else v)"

text \<open>
  A flow record is the object built by \<^verbatim>\<open>parseLineFromLog\<close>: a map from field names
  to values. The field names of a format are ordinary property names.
\<close>

type_synonym FlowRecord = "string \<rightharpoonup> string"

text \<open>
  The callback of \<^verbatim>\<open>reduce\<close> in \<^verbatim>\<open>parseLineFromLog\<close>: token \<open>idx\<close> is stored
  under \<^verbatim>\<open>format[idx]\<close>.
\<close>

definition assignField ::
  "protocol_table \<Rightarrow> string list \<Rightarrow> FlowRecord \<Rightarrow> nat \<times> string \<Rightarrow> FlowRecord" where
  "assignField protocol_numbers format acc p =
     (let idx = fst p; tok = snd p;
          key = format ! idx;
          v = handleFields protocol_numbers key tok
      in acc(key \<mapsto> v))"

text \<open>
  \<^verbatim>\<open>parseLineFromLog\<close>: the trimmed line is split at every single space; a line
  whose token count differs from the length of the format gives \<^verbatim>\<open>null\<close>
  (\<^term>\<open>None\<close>). Otherwise the tokens are stored one by one; \<^verbatim>\<open>format[idx]\<close> is in
  range for every token since the two lengths agree.
\<close>

definition parseLineFromLog :: "protocol_table \<Rightarrow> string \<Rightarrow> string list \<Rightarrow> FlowRecord option" where
  "parseLineFromLog protocol_numbers line format =
     (let linesArr = split_on CHR '' '' (trim line)
      in if length linesArr \<noteq> length format then None
         else Some (foldl (assignField protocol_numbers format) Map.empty
                      (enumerate 0 linesArr)))"

text \<open>\<^verbatim>\<open>parseLog\<close>: every line of the trimmed buffer is parsed, and the nulls are removed.\<close>

definition parseLog :: "protocol_table \<Rightarrow> string \<Rightarrow> FlowRecord list" where
  "parseLog protocol_numbers logfile =
     map the (filter (\<lambda>parsed. parsed \<noteq> None)
       (map (\<lambda>line. parseLineFromLog protocol_numbers line AVAILABLE_FIELDS_DEFAULT)
            (split_on CHR 0x0A (trim logfile))))"

section \<open>The lookup table\<close>

text \<open>\<^verbatim>\<open>serialize\<close>: the template string \<^verbatim>\<open>`${k},${v}`\<close> in lower case.\<close>

definition serialize :: "string option \<Rightarrow> string option \<Rightarrow> string" where
  "serialize k v = toLowerCase (js_str k @ '','' @ js_str v)"

definition LOOKUP_DEFAULT_FORMAT :: "string list" where
  "LOOKUP_DEFAULT_FORMAT = [''dstport'', ''protocol'', ''tag'']"

text \<open>
  \<^verbatim>\<open>parseCSVLine\<close> returns \<^verbatim>\<open>null\<close> or the pair of \<^verbatim>\<open>key\<close> and \<^verbatim>\<open>value\<close>.
  The comparisons \<^verbatim>\<open>linesArr[i] === ""\<close> are false for \<^verbatim>\<open>undefined\<close>.
\<close>

definition parseCSVLine :: "string \<Rightarrow> string list \<Rightarrow> (string \<times> string option) option" where
  "parseCSVLine line format =
     (let linesArr = split_on CHR '','' (trim line)
      in if length linesArr \<noteq> length format then None
         else if at linesArr 0 = Some [] \<or> at linesArr 1 = Some [] \<or> at linesArr 2 = Some []
         then None
         else Some (serialize (at linesArr 0) (at linesArr 1), at linesArr 2))"

text \<open>
  The lookup table is a plain object used as a dictionary; reading a key gives the
  stored string or \<^verbatim>\<open>undefined\<close>. Every key the program stores or reads is made by
  \<^verbatim>\<open>serialize\<close> and contains a comma, so no inherited property of the object is ever
  read.
\<close>

type_synonym lookup_table = "string \<rightharpoonup> string"

text \<open>The callback of \<^verbatim>\<open>reduce\<close> in \<^verbatim>\<open>buildLookupTable\<close>.\<close>

definition insertParsed :: "lookup_table \<Rightarrow> string \<Rightarrow> lookup_table" where
  "insertParsed acc line =
     (case parseCSVLine line LOOKUP_DEFAULT_FORMAT of
        None \<Rightarrow> acc
      | Some (key, v) \<Rightarrow> acc(key := v))"

definition buildLookupTable :: "string \<Rightarrow> lookup_table" where
  "buildLookupTable csv = foldl insertParsed Map.empty (split_on CHR 0x0A (trim csv))"

section \<open>Aggregation\<close>

text \<open>
  The two count tables are JavaScript \<^verbatim>\<open>Map\<close>s: association lists in insertion
  order, where \<^verbatim>\<open>set\<close> on a key that is present replaces the value in place.
\<close>

definition Map_get :: "('k \<times> 'v) list \<Rightarrow> 'k \<Rightarrow> 'v option" where
  "Map_get m k = map_of m k"

fun Map_set :: "('k \<times> 'v) list \<Rightarrow> 'k \<Rightarrow> 'v \<Rightarrow> ('k \<times> 'v) list" where
  "Map_set [] k v = [(k, v)]"
| "Map_set ((k', v') # m) k v =
     (if k' = k then (k, v) # m else (k', v') # Map_set m k v)"

text \<open>
  A count is a JavaScript number: a natural number, or \<^verbatim>\<open>NaN\<close>, which is what
  \<^verbatim>\<open>undefined + 1\<close> evaluates to.
\<close>

datatype jsnum = Num nat | NaN

fun truthy :: "jsnum option \<Rightarrow> bool" where
  "truthy (Some (Num n)) = (n \<noteq> 0)"
| "truthy (Some NaN) = False"
| "truthy None = False"

fun plus1 :: "jsnum option \<Rightarrow> jsnum" where
  "plus1 (Some (Num n)) = Num (n + 1)"
| "plus1 (Some NaN) = NaN"
| "plus1 None = NaN"

type_synonym count_table = "(string \<times> jsnum) list"

record counts =
  tagCounts :: count_table
  portProtocolCounts :: count_table

text \<open>
  The two statements the loop body applies to each of the two tables:
  \<^verbatim>\<open>if (!m.get(k)) m.set(k, 0); m.set(k, m.get(k) + 1);\<close>
\<close>

definition countKey :: "count_table \<Rightarrow> string \<Rightarrow> count_table" where
  "countKey m k =
     (let m1 = (if \<not> truthy (Map_get m k) then Map_set m k (Num 0) else m)
      in Map_set m1 k (plus1 (Map_get m1 k)))"

text \<open>The callback of \<^verbatim>\<open>logs.forEach\<close> in \<^verbatim>\<open>main\<close>.\<close>

definition countLog :: "lookup_table \<Rightarrow> counts \<Rightarrow> FlowRecord \<Rightarrow> counts" where
  "countLog table st log =
     (let portProtocolKey = serialize (log ''dstport'') (log ''protocol'');
          tag = (case table portProtocolKey of None \<Rightarrow> ''untagged'' | Some t \<Rightarrow> t)
      in \<lparr>tagCounts = countKey (tagCounts st) tag,
          portProtocolCounts = countKey (portProtocolCounts st) portProtocolKey\<rparr>)"

definition initialCounts :: counts where
  "initialCounts = \<lparr>tagCounts = [(''untagged'', Num 0)], portProtocolCounts = []\<rparr>"

definition aggregate :: "lookup_table \<Rightarrow> FlowRecord list \<Rightarrow> counts" where
  "aggregate table logs = foldl (countLog table) initialCounts logs"

text \<open>The counts that \<^verbatim>\<open>main\<close> computes from the two buffers it has read.\<close>

definition mainCounts :: "protocol_table \<Rightarrow> string \<Rightarrow> string \<Rightarrow> counts" where
  "mainCounts protocol_numbers lookupBuffer logfileBuffer =
     aggregate (buildLookupTable lookupBuffer) (parseLog protocol_numbers logfileBuffer)"

text \<open>The count stored under a key, and the sum of the counts of a table.\<close>

definition countOf :: "count_table \<Rightarrow> string \<Rightarrow> nat" where
  "countOf m k = (case Map_get m k of Some (Num n) \<Rightarrow> n | _ \<Rightarrow> 0)"

fun numValue :: "jsnum \<Rightarrow> nat" where
  "numValue (Num n) = n"
| "numValue NaN = 0"

definition totalCount :: "count_table \<Rightarrow> nat" where
  "totalCount m = sum_list (map (numValue \<circ> snd) m)"

section \<open>Notions used to state the properties\<close>

text \<open>
  A small protocol table for concrete evaluations; its three entries carry the names of
  the IANA protocol numbers 1, 6 and 17.
\<close>

definition sample_protocol_numbers :: protocol_table where
  "sample_protocol_numbers = map_of [(1, ''ICMP''), (6, ''TCP''), (17, ''UDP'')]"

text \<open>\<^verbatim>\<open>fields.join(sep)\<close>: the line that carries the given fields, one separator between two.\<close>

fun join_on :: "char \<Rightarrow> string list \<Rightarrow> string" where
  "join_on sep [] = []"
| "join_on sep [t] = t"
| "join_on sep (t # ts) = t @ sep # join_on sep ts"

text \<open>
  The tokenisation in the words of the specification, "split the line on runs of
  whitespace (after trimming leading/trailing whitespace)": the tokens are the maximal
  runs of characters that are not white space.
\<close>

fun split_at_whitespace :: "string \<Rightarrow> string list" where
  "split_at_whitespace [] = [Nil]"
| "split_at_whitespace (x # xs) =
     (if isWhiteSpace x then [] # split_at_whitespace xs
      else (case split_at_whitespace xs of
              [] \<Rightarrow> [x] # []
            | t # ts \<Rightarrow> (x # t) # ts))"

definition spec_whitespace_tokens :: "string \<Rightarrow> string list" where
  "spec_whitespace_tokens line = filter (\<lambda>t. t \<noteq> []) (split_at_whitespace (trim line))"

text \<open>
  Two strings differ in letter case only when their lower-case forms agree. Two lines of
  the lookup file are variants when they split into equally many fields and, where there
  are three, agree on destination port and protocol up to letter case and on the tag.
  Two lines of the log are variants when they split into equally many tokens and, where
  there are fourteen, agree on destination port and protocol up to letter case.
\<close>

definition sameUpToCase :: "string \<Rightarrow> string \<Rightarrow> bool" where
  "sameUpToCase s t = (toLowerCase s = toLowerCase t)"

definition csvLineVariant :: "string \<Rightarrow> string \<Rightarrow> bool" where
  "csvLineVariant l l' =
     (let ts = split_on CHR '','' (trim l); ts' = split_on CHR '','' (trim l')
      in length ts = length ts' \<and>
         (length ts = 3 \<longrightarrow>
            sameUpToCase (ts ! 0) (ts' ! 0) \<and> sameUpToCase (ts ! 1) (ts' ! 1) \<and> ts ! 2 = ts' ! 2))"

definition logLineVariant :: "string \<Rightarrow> string \<Rightarrow> bool" where
  "logLineVariant l l' =
     (let ts = split_on CHR '' '' (trim l); ts' = split_on CHR '' '' (trim l')
      in length ts = length ts' \<and>
         (length ts = 14 \<longrightarrow>
            sameUpToCase (ts ! 6) (ts' ! 6) \<and> sameUpToCase (ts ! 7) (ts' ! 7)))"

section \<open>Facts about the string operations\<close>

lemma char_eq_code: "(c = d) = ((of_char c :: nat) = of_char d)"
  by simp

lemma isWhiteSpace_iff:
  "isWhiteSpace c \<longleftrightarrow> (of_char c :: nat) \<in> {9, 10, 11, 12, 13, 32, 160}"
  unfolding isWhiteSpace_def by (simp only: char_eq_code[of c]) simp

lemma isDigit_not_space: "isDigit c \<Longrightarrow> \<not> isWhiteSpace c"
  by (auto simp: isDigit_def isWhiteSpace_iff)

lemma isDigit_not_sign: "isDigit c \<Longrightarrow> c \<noteq> CHR ''+'' \<and> c \<noteq> CHR ''-''"
  by (auto simp: isDigit_def)

lemma split_on_nonempty: "split_on sep s \<noteq> []"
  by (induction s) (auto split: list.splits)

lemma split_on_no_sep: "sep \<notin> set t \<Longrightarrow> split_on sep t = [t]"
  by (induction t) auto

lemma split_on_field: "sep \<notin> set t \<Longrightarrow> split_on sep (t @ sep # rest) = t # split_on sep rest"
  by (induction t) auto

lemma split_on_join:
  "ts \<noteq> [] \<Longrightarrow> \<forall>t\<in>set ts. sep \<notin> set t \<Longrightarrow> split_on sep (join_on sep ts) = ts"
proof (induction sep ts rule: join_on.induct)
  case (1 sep)
  then show ?case by simp
next
  case (2 sep t)
  then show ?case by (simp add: split_on_no_sep)
next
  case (3 sep t u ts)
  then show ?case by (simp add: split_on_field)
qed

lemma dropWhile_all: "\<forall>c\<in>set l. P c \<Longrightarrow> dropWhile P (l @ xs) = dropWhile P xs"
  by (induction l) auto

lemma trim_sandwich:
  assumes "xs \<noteq> []" and "\<not> isWhiteSpace (hd xs)" and "\<not> isWhiteSpace (last xs)"
    and "\<forall>c\<in>set l. isWhiteSpace c" and "\<forall>c\<in>set t. isWhiteSpace c"
  shows "trim (l @ xs @ t) = xs"
proof -
  have lft: "dropWhile isWhiteSpace (l @ xs @ t) = xs @ t"
    using assms(1,2,4) by (cases xs) (simp_all add: dropWhile_all)
  have rgt: "dropWhile isWhiteSpace (rev (xs @ t)) = rev xs"
  proof -
    have "dropWhile isWhiteSpace (rev t @ rev xs) = dropWhile isWhiteSpace (rev xs)"
      using assms(5) by (simp add: dropWhile_all)
    moreover have "dropWhile isWhiteSpace (rev xs) = rev xs"
      using assms(1,3) by (cases xs rule: rev_cases) simp_all
    ultimately show ?thesis by simp
  qed
  show ?thesis unfolding trim_def lft rgt by simp
qed

lemma hd_join_on: "ts \<noteq> [] \<Longrightarrow> hd ts \<noteq> [] \<Longrightarrow> hd (join_on sep ts) = hd (hd ts)"
  by (induction sep ts rule: join_on.induct) auto

lemma join_on_nonempty: "ts \<noteq> [] \<Longrightarrow> hd ts \<noteq> [] \<Longrightarrow> join_on sep ts \<noteq> []"
  by (induction sep ts rule: join_on.induct) auto

lemma join_on_nonempty_last: "ts \<noteq> [] \<Longrightarrow> last ts \<noteq> [] \<Longrightarrow> join_on sep ts \<noteq> []"
  by (induction sep ts rule: join_on.induct) auto

lemma last_join_on: "ts \<noteq> [] \<Longrightarrow> last ts \<noteq> [] \<Longrightarrow> last (join_on sep ts) = last (last ts)"
proof (induction sep ts rule: join_on.induct)
  case (3 sep t u ts)
  then have "join_on sep (u # ts) \<noteq> []"
    by (intro join_on_nonempty_last) simp_all
  then show ?case using 3 by simp
qed simp_all

lemma split_trim_fields:
  assumes "fs \<noteq> []" and "\<forall>f\<in>set fs. f \<noteq> [] \<and> (\<forall>c\<in>set f. \<not> isWhiteSpace c)"
    and "\<forall>c\<in>set lead. isWhiteSpace c" and "\<forall>c\<in>set trail. isWhiteSpace c"
  shows "split_on CHR '' '' (trim (lead @ join_on CHR '' '' fs @ trail)) = fs"
proof -
  have hdne: "hd fs \<noteq> []" and lastne: "last fs \<noteq> []"
    using assms(1,2) by auto
  have "hd (hd fs) \<in> set (hd fs)" "last (last fs) \<in> set (last fs)"
    using hdne lastne by auto
  moreover have "hd fs \<in> set fs" "last fs \<in> set fs"
    using assms(1) by auto
  ultimately have a: "\<not> isWhiteSpace (hd (hd fs))" and b: "\<not> isWhiteSpace (last (last fs))"
    using assms(2) by blast+
  have t: "trim (lead @ join_on CHR '' '' fs @ trail) = join_on CHR '' '' fs"
    by (rule trim_sandwich)
       (use assms a b hdne lastne in \<open>simp_all add: hd_join_on last_join_on join_on_nonempty\<close>)
  have "\<forall>f\<in>set fs. CHR '' '' \<notin> set f"
    using assms(2) by (auto simp: isWhiteSpace_def)
  then show ?thesis unfolding t using assms(1) by (simp add: split_on_join)
qed

section \<open>The protocol translation\<close>

lemma takeWhile_digits:
  "\<forall>d\<in>set ds. isDigit d \<Longrightarrow> rest = [] \<or> \<not> isDigit (hd rest) \<Longrightarrow>
   takeWhile isDigit (ds @ rest) = ds"
  by (cases rest) auto

lemma parseInt_digits:
  assumes "ds \<noteq> []" and "\<forall>d\<in>set ds. isDigit d" and "rest = [] \<or> \<not> isDigit (hd rest)"
  shows "parseInt (ds @ rest) = Some (int (decimal ds))"
proof -
  obtain d ds' where ds: "ds = d # ds'"
    using assms(1) by (cases ds) auto
  then have d: "isDigit d"
    using assms(2) by simp
  have dw: "dropWhile isWhiteSpace (ds @ rest) = ds @ rest"
    using d isDigit_not_space by (simp add: ds)
  have hd: "hd (ds @ rest) \<noteq> CHR ''+''" "hd (ds @ rest) \<noteq> CHR ''-''"
    using isDigit_not_sign[OF d] by (simp_all add: ds)
  show ?thesis
    unfolding parseInt_def dw Let_def using hd takeWhile_digits[OF assms(2,3)] assms(1)
    by simp
qed

lemma parseInt_no_digit:
  assumes "v = [] \<or> (\<not> isWhiteSpace (hd v) \<and> hd v \<noteq> CHR ''+'' \<and> hd v \<noteq> CHR ''-'' \<and> \<not> isDigit (hd v))"
  shows "parseInt v = None"
proof (cases v)
  case Nil
  then show ?thesis by (simp add: parseInt_def)
next
  case (Cons c cs)
  then show ?thesis using assms by (simp add: parseInt_def)
qed

lemma handleFields_protocol:
  "handleFields pn ''protocol'' v =
     (case parseInt v of
        None \<Rightarrow> v
      | Some n \<Rightarrow> (case pn n of None \<Rightarrow> v | Some nm \<Rightarrow> nm))"
  by (simp add: handleFields_def protocolName_def split: option.splits)

lemma handleFields_other: "key \<noteq> ''protocol'' \<Longrightarrow> handleFields pn key v = v"
  by (simp add: handleFields_def)

text \<open>
  C6. The protocol translation is a total function from strings to strings: it gives the
  name of the table entry when \<^verbatim>\<open>parseInt\<close> yields a number and the table has an
  entry for it, and the input string itself when \<^verbatim>\<open>parseInt\<close> yields no number or
  the table has no entry; in particular a token that starts with a character that is
  neither white space, a sign nor a digit comes back unchanged.
\<close>

theorem handleFields_protocol_total:
  "handleFields protocol_numbers ''protocol'' v =
     (case parseInt v of
        None \<Rightarrow> v
      | Some n \<Rightarrow> (case protocol_numbers n of None \<Rightarrow> v | Some nm \<Rightarrow> nm)) \<and>
   (v = [] \<or> (\<not> isWhiteSpace (hd v) \<and> hd v \<noteq> CHR ''+'' \<and> hd v \<noteq> CHR ''-'' \<and> \<not> isDigit (hd v))
      \<longrightarrow> handleFields protocol_numbers ''protocol'' v = v)"
  using parseInt_no_digit[of v]
  by (auto simp: handleFields_def protocolName_def split: option.splits)

theorem handleFields_protocol_total_witness:
  "handleFields sample_protocol_numbers ''protocol'' ''17'' = ''UDP'' \<and>
   handleFields sample_protocol_numbers ''protocol'' ''99'' = ''99'' \<and>
   handleFields sample_protocol_numbers ''protocol'' ''tcp'' = ''tcp''"
proof -
  have p: "parseInt ''17'' = Some 17" "parseInt ''99'' = Some 99"
    by (simp_all add: parseInt_def isWhiteSpace_def isDigit_def decimal_def digitValue_def)
  have d: "\<not> isWhiteSpace (hd ''tcp'')" "hd ''tcp'' \<noteq> CHR ''+''" "hd ''tcp'' \<noteq> CHR ''-''"
    "\<not> isDigit (hd ''tcp'')"
    by (simp_all add: isWhiteSpace_def isDigit_def)
  have a: "handleFields sample_protocol_numbers ''protocol'' ''17'' = ''UDP''"
    using handleFields_protocol_total[of sample_protocol_numbers "''17''", THEN conjunct1] p(1)
    by (simp add: sample_protocol_numbers_def)
  have b: "handleFields sample_protocol_numbers ''protocol'' ''99'' = ''99''"
    using handleFields_protocol_total[of sample_protocol_numbers "''99''", THEN conjunct1] p(2)
    by (simp add: sample_protocol_numbers_def)
  have c: "handleFields sample_protocol_numbers ''protocol'' ''tcp'' = ''tcp''"
    using handleFields_protocol_total[of sample_protocol_numbers "''tcp''", THEN conjunct2] d
    by blast
  show ?thesis using a b c by simp
qed

text \<open>
  C10. A protocol token that consists of the decimal digits of a number with a table
  entry, followed by a remainder that starts with a character that is not a digit, is
  translated to the name of that entry: \<^verbatim>\<open>parseInt\<close> reads the digits and ignores the
  remainder.
\<close>

theorem handleFields_numeric_prefix:
  assumes "ds \<noteq> []" and "\<forall>d\<in>set ds. isDigit d"
    and "rest \<noteq> []" and "\<not> isDigit (hd rest)"
    and "protocol_numbers (int (decimal ds)) = Some nm"
  shows "handleFields protocol_numbers ''protocol'' (ds @ rest) = nm"
  using parseInt_digits[of ds rest] assms
  by (simp add: handleFields_def protocolName_def)

theorem handleFields_numeric_prefix_witness:
  "isDigit CHR ''6'' \<and> \<not> isDigit CHR ''a'' \<and>
   sample_protocol_numbers (int (decimal ''6'')) = Some ''TCP'' \<and>
   handleFields sample_protocol_numbers ''protocol'' ''6abc'' = ''TCP''"
proof -
  have h: "''6'' \<noteq> []" "\<forall>d\<in>set ''6''. isDigit d" "''abc'' \<noteq> []" "\<not> isDigit (hd ''abc'')"
    "sample_protocol_numbers (int (decimal ''6'')) = Some ''TCP''"
    by (simp_all add: isDigit_def decimal_def digitValue_def sample_protocol_numbers_def)
  have "handleFields sample_protocol_numbers ''protocol'' (''6'' @ ''abc'') = ''TCP''"
    using h by (rule handleFields_numeric_prefix)
  then show ?thesis using h by simp
qed

section \<open>The flow record parser\<close>

lemma distinct_fields: "distinct AVAILABLE_FIELDS_DEFAULT"
  by (simp add: AVAILABLE_FIELDS_DEFAULT_def)

lemma length_fields: "length AVAILABLE_FIELDS_DEFAULT = 14"
  by (simp add: AVAILABLE_FIELDS_DEFAULT_def)

lemma protocol_field: "AVAILABLE_FIELDS_DEFAULT ! 7 = ''protocol''"
  by (simp add: AVAILABLE_FIELDS_DEFAULT_def)

lemma dstport_field: "AVAILABLE_FIELDS_DEFAULT ! 6 = ''dstport''"
  by (simp add: AVAILABLE_FIELDS_DEFAULT_def)

lemma other_fields:
  assumes "i < 14" and "i \<noteq> 7"
  shows "AVAILABLE_FIELDS_DEFAULT ! i \<noteq> ''protocol''"
proof -
  have "AVAILABLE_FIELDS_DEFAULT ! i \<noteq> AVAILABLE_FIELDS_DEFAULT ! 7"
    using assms distinct_fields length_fields by (simp add: nth_eq_iff_index_eq)
  then show ?thesis by (simp add: protocol_field)
qed

lemma assignField_pair:
  "assignField pn format acc (n, t) = acc(format ! n \<mapsto> handleFields pn (format ! n) t)"
  by (simp add: assignField_def Let_def)

lemma foldl_assignField_Cons:
  "foldl (assignField pn format) acc (enumerate n (t # toks)) =
   foldl (assignField pn format) (acc(format ! n \<mapsto> handleFields pn (format ! n) t))
     (enumerate (Suc n) toks)"
  by (simp add: assignField_pair)

lemma foldl_enumerate_store:
  assumes "distinct format" and "n + length toks \<le> length format" and "j < length format"
  shows "foldl (assignField pn format) acc (enumerate n toks) (format ! j) =
         (if n \<le> j \<and> j < n + length toks
          then Some (handleFields pn (format ! j) (toks ! (j - n)))
          else acc (format ! j))"
  using assms
proof (induction toks arbitrary: n acc)
  case Nil
  then show ?case by auto
next
  case (Cons t toks)
  let ?acc = "acc(format ! n \<mapsto> handleFields pn (format ! n) t)"
  have step: "foldl (assignField pn format) acc (enumerate n (t # toks)) (format ! j) =
              (if Suc n \<le> j \<and> j < Suc n + length toks
               then Some (handleFields pn (format ! j) (toks ! (j - Suc n)))
               else ?acc (format ! j))"
    unfolding foldl_assignField_Cons by (rule Cons.IH) (use Cons.prems in simp_all)
  show ?case
  proof (cases "j = n")
    case True
    then show ?thesis unfolding step by simp
  next
    case False
    then have "format ! n \<noteq> format ! j"
      using Cons.prems by (simp add: nth_eq_iff_index_eq)
    then have "?acc (format ! j) = acc (format ! j)"
      by simp
    moreover have "n \<le> j \<Longrightarrow> (t # toks) ! (j - n) = toks ! (j - Suc n)"
      using False by (simp add: nth_Cons')
    ultimately show ?thesis unfolding step using False by auto
  qed
qed

lemma foldl_enumerate_dom:
  "dom (foldl (assignField pn format) acc (enumerate n toks))
     = dom acc \<union> {format ! i | i. n \<le> i \<and> i < n + length toks}"
proof (induction toks arbitrary: n acc)
  case Nil
  then show ?case by auto
next
  case (Cons t toks)
  have set_eq: "{format ! i | i. n \<le> i \<and> i < n + length (t # toks)}
       = insert (format ! n) {format ! i | i. Suc n \<le> i \<and> i < Suc n + length toks}"
    by (auto simp: le_Suc_eq) (metis Suc_leI le_neq_implies_less)
  have "dom (foldl (assignField pn format) acc (enumerate n (t # toks)))
      = dom (acc(format ! n \<mapsto> handleFields pn (format ! n) t))
        \<union> {format ! i | i. Suc n \<le> i \<and> i < Suc n + length toks}"
    unfolding foldl_assignField_Cons by (rule Cons.IH)
  also have "\<dots> = dom acc \<union> {format ! i | i. n \<le> i \<and> i < n + length (t # toks)}"
    unfolding set_eq dom_fun_upd by simp
  finally show ?case .
qed

lemma parseLineFromLog_Some:
  assumes "distinct format" and "length (split_on CHR '' '' (trim line)) = length format"
  shows "\<exists>r. parseLineFromLog pn line format = Some r \<and> dom r = set format \<and>
           (\<forall>i<length format.
              r (format ! i) =
                Some (handleFields pn (format ! i) (split_on CHR '' '' (trim line) ! i)))"
proof -
  let ?toks = "split_on CHR '' '' (trim line)"
  let ?r = "foldl (assignField pn format) Map.empty (enumerate 0 ?toks)"
  have 1: "parseLineFromLog pn line format = Some ?r"
    using assms(2) by (simp add: parseLineFromLog_def Let_def)
  have 2: "dom ?r = set format"
    unfolding foldl_enumerate_dom using assms(2) by (auto simp: set_conv_nth)
  have 3: "\<forall>i<length format. ?r (format ! i) = Some (handleFields pn (format ! i) (?toks ! i))"
    using foldl_enumerate_store[OF assms(1), of 0 ?toks _ pn Map.empty] assms(2)
    by simp
  show ?thesis using 1 2 3 by blast
qed

lemma parseLineFromLog_None:
  "length (split_on CHR '' '' (trim line)) \<noteq> length format \<Longrightarrow>
   parseLineFromLog pn line format = None"
  by (simp add: parseLineFromLog_def)

text \<open>
  C1, as stated, fails. The line below carries the fourteen fields of a flow record with
  two spaces between the first and the second: split on runs of white space it has
  fourteen tokens, but the parser splits at every single space, finds fifteen tokens (one
  of them empty) and drops the line.
\<close>

theorem whitespace_runs_counterexample:
  "length (spec_whitespace_tokens
     ''2  123456789012 eni-abc 10.0.0.1 10.0.0.2 443 80 6 10 1000 1610000000 1610000010 ACCEPT OK'') = 14 \<and>
   length (split_on CHR '' '' (trim
     ''2  123456789012 eni-abc 10.0.0.1 10.0.0.2 443 80 6 10 1000 1610000000 1610000010 ACCEPT OK'')) = 15 \<and>
   parseLineFromLog sample_protocol_numbers
     ''2  123456789012 eni-abc 10.0.0.1 10.0.0.2 443 80 6 10 1000 1610000000 1610000010 ACCEPT OK''
     AVAILABLE_FIELDS_DEFAULT = None"
proof -
  let ?l = "''2  123456789012 eni-abc 10.0.0.1 10.0.0.2 443 80 6 10 1000 1610000000 1610000010 ACCEPT OK''"
  have a: "length (spec_whitespace_tokens ?l) = 14"
    by (simp add: spec_whitespace_tokens_def trim_def isWhiteSpace_def)
  have b: "length (split_on CHR '' '' (trim ?l)) = 15"
    by (simp add: trim_def isWhiteSpace_def)
  have c: "parseLineFromLog sample_protocol_numbers ?l AVAILABLE_FIELDS_DEFAULT = None"
    by (rule parseLineFromLog_None) (simp add: b length_fields)
  show ?thesis using a b c by simp
qed

text \<open>
  C1, amended. For every log line that carries fourteen fields, each of them non-empty and
  free of white space, with exactly one space between two fields and any white space
  before the first and after the last, the parser splits the trimmed line into exactly
  these fourteen tokens and produces a flow record.
\<close>

theorem parseLineFromLog_single_spaces:
  assumes "length fs = 14"
    and "\<forall>f\<in>set fs. f \<noteq> [] \<and> (\<forall>c\<in>set f. \<not> isWhiteSpace c)"
    and "\<forall>c\<in>set lead. isWhiteSpace c" and "\<forall>c\<in>set trail. isWhiteSpace c"
  shows "split_on CHR '' '' (trim (lead @ join_on CHR '' '' fs @ trail)) = fs \<and>
         parseLineFromLog protocol_numbers (lead @ join_on CHR '' '' fs @ trail)
           AVAILABLE_FIELDS_DEFAULT \<noteq> None"
proof -
  have "fs \<noteq> []"
    using assms(1) by auto
  then have s: "split_on CHR '' '' (trim (lead @ join_on CHR '' '' fs @ trail)) = fs"
    using assms(2-4) by (rule split_trim_fields)
  then show ?thesis
    using assms(1) by (simp add: parseLineFromLog_def length_fields)
qed

theorem parseLineFromLog_single_spaces_witness:
  "split_on CHR '' '' (trim
     '' 2 123456789012 eni-abc 10.0.0.1 10.0.0.2 443 80 6 10 1000 1610000000 1610000010 ACCEPT OK  '')
     = [''2'', ''123456789012'', ''eni-abc'', ''10.0.0.1'', ''10.0.0.2'', ''443'', ''80'', ''6'',
        ''10'', ''1000'', ''1610000000'', ''1610000010'', ''ACCEPT'', ''OK''] \<and>
   parseLineFromLog sample_protocol_numbers
     '' 2 123456789012 eni-abc 10.0.0.1 10.0.0.2 443 80 6 10 1000 1610000000 1610000010 ACCEPT OK  ''
     AVAILABLE_FIELDS_DEFAULT \<noteq> None"
proof -
  let ?fs = "[''2'', ''123456789012'', ''eni-abc'', ''10.0.0.1'', ''10.0.0.2'', ''443'', ''80'',
              ''6'', ''10'', ''1000'', ''1610000000'', ''1610000010'', ''ACCEPT'', ''OK'']"
  have 1: "length ?fs = 14"
    by simp
  have 2: "\<forall>f\<in>set ?fs. f \<noteq> [] \<and> (\<forall>c\<in>set f. \<not> isWhiteSpace c)"
    by (simp add: isWhiteSpace_def)
  have 3: "\<forall>c\<in>set '' ''. isWhiteSpace c" "\<forall>c\<in>set ''  ''. isWhiteSpace c"
    by (simp_all add: isWhiteSpace_def)
  have 4: "'' '' @ join_on CHR '' '' ?fs @ ''  '' =
    '' 2 123456789012 eni-abc 10.0.0.1 10.0.0.2 443 80 6 10 1000 1610000000 1610000010 ACCEPT OK  ''"
    by simp
  show ?thesis
    using parseLineFromLog_single_spaces[OF 1 2 3, of sample_protocol_numbers]
    unfolding 4 .
qed

text \<open>
  C2, as stated, fails for the same reason as C1: the token count that decides is the one
  of the split at single spaces. In the line below a TAB separates the first two fields;
  split at white space it has fourteen tokens, but the parser finds thirteen and produces
  no record.
\<close>

theorem whitespace_count_counterexample:
  "length (spec_whitespace_tokens
     (''2'' @ CHR 0x09 #
      ''123456789012 eni-abc 10.0.0.1 10.0.0.2 443 80 6 10 1000 1610000000 1610000010 ACCEPT OK''))
     = length AVAILABLE_FIELDS_DEFAULT \<and>
   parseLineFromLog sample_protocol_numbers
     (''2'' @ CHR 0x09 #
      ''123456789012 eni-abc 10.0.0.1 10.0.0.2 443 80 6 10 1000 1610000000 1610000010 ACCEPT OK'')
     AVAILABLE_FIELDS_DEFAULT = None"
proof -
  let ?l = "''2'' @ CHR 0x09 #
      ''123456789012 eni-abc 10.0.0.1 10.0.0.2 443 80 6 10 1000 1610000000 1610000010 ACCEPT OK''"
  have a: "length (spec_whitespace_tokens ?l) = length AVAILABLE_FIELDS_DEFAULT"
    by (simp add: spec_whitespace_tokens_def trim_def isWhiteSpace_def length_fields)
  have b: "length (split_on CHR '' '' (trim ?l)) = 13"
    by (simp add: trim_def isWhiteSpace_def)
  have c: "parseLineFromLog sample_protocol_numbers ?l AVAILABLE_FIELDS_DEFAULT = None"
    by (rule parseLineFromLog_None) (use b in \<open>simp add: length_fields\<close>)
  show ?thesis using a c by simp
qed

text \<open>
  C2, amended. For every log line whose trimmed text, split at every single space, has
  as many tokens as the field list has entries (fourteen), the parser produces one flow
  record. Its fields are those of the list; every field but \<^verbatim>\<open>protocol\<close> holds the
  token at its position; \<^verbatim>\<open>protocol\<close> holds the name of the table entry when
  \<^verbatim>\<open>parseInt\<close> reads a number from the token and the table has an entry for it, and
  the token itself otherwise.
\<close>

theorem parseLineFromLog_positional:
  assumes "length (split_on CHR '' '' (trim line)) = length AVAILABLE_FIELDS_DEFAULT"
  shows "\<exists>r. parseLineFromLog protocol_numbers line AVAILABLE_FIELDS_DEFAULT = Some r \<and>
           dom r = set AVAILABLE_FIELDS_DEFAULT \<and>
           (\<forall>i<14. r (AVAILABLE_FIELDS_DEFAULT ! i) =
              Some (let tok = split_on CHR '' '' (trim line) ! i
                    in if i = 7
                       then (case parseInt tok of
                               None \<Rightarrow> tok
                             | Some n \<Rightarrow>
                                 (case protocol_numbers n of None \<Rightarrow> tok | Some nm \<Rightarrow> nm))
                       else tok))"
proof -
  let ?toks = "split_on CHR '' '' (trim line)"
  obtain r where r: "parseLineFromLog protocol_numbers line AVAILABLE_FIELDS_DEFAULT = Some r"
    "dom r = set AVAILABLE_FIELDS_DEFAULT"
    "\<forall>i<length AVAILABLE_FIELDS_DEFAULT.
       r (AVAILABLE_FIELDS_DEFAULT ! i) =
         Some (handleFields protocol_numbers (AVAILABLE_FIELDS_DEFAULT ! i) (?toks ! i))"
    using parseLineFromLog_Some[OF distinct_fields assms] by blast
  have "r (AVAILABLE_FIELDS_DEFAULT ! i) =
          Some (let tok = ?toks ! i
                in if i = 7
                   then (case parseInt tok of
                           None \<Rightarrow> tok
                         | Some n \<Rightarrow>
                             (case protocol_numbers n of None \<Rightarrow> tok | Some nm \<Rightarrow> nm))
                   else tok)" if "i < 14" for i
  proof (cases "i = 7")
    case True
    then show ?thesis
      using r(3)[rule_format, of 7]
      by (simp add: length_fields protocol_field handleFields_protocol Let_def)
  next
    case False
    then show ?thesis
      using r(3)[rule_format, of i] that other_fields[OF that False]
      by (simp add: length_fields handleFields_other Let_def)
  qed
  then show ?thesis using r(1,2) by blast
qed

theorem parseLineFromLog_positional_witness:
  "\<exists>r. parseLineFromLog sample_protocol_numbers
          ''2 123456789012 eni-abc 10.0.0.1 10.0.0.2 443 80 6 10 1000 1610000000 1610000010 ACCEPT OK''
          AVAILABLE_FIELDS_DEFAULT = Some r \<and>
        r ''dstport'' = Some ''80'' \<and> r ''protocol'' = Some ''TCP'' \<and>
        r ''action'' = Some ''ACCEPT''"
proof -
  let ?l = "''2 123456789012 eni-abc 10.0.0.1 10.0.0.2 443 80 6 10 1000 1610000000 1610000010 ACCEPT OK''"
  have toks: "split_on CHR '' '' (trim ?l) =
      [''2'', ''123456789012'', ''eni-abc'', ''10.0.0.1'', ''10.0.0.2'', ''443'', ''80'', ''6'',
       ''10'', ''1000'', ''1610000000'', ''1610000010'', ''ACCEPT'', ''OK'']"
    by (simp add: trim_def isWhiteSpace_def)
  have h: "length (split_on CHR '' '' (trim ?l)) = length AVAILABLE_FIELDS_DEFAULT"
    unfolding toks by (simp add: length_fields)
  have p: "parseInt ''6'' = Some 6"
    by (simp add: parseInt_def isWhiteSpace_def isDigit_def decimal_def digitValue_def)
  obtain r where r: "parseLineFromLog sample_protocol_numbers ?l AVAILABLE_FIELDS_DEFAULT = Some r"
    and f: "\<forall>i<14. r (AVAILABLE_FIELDS_DEFAULT ! i) =
              Some (let tok = split_on CHR '' '' (trim ?l) ! i
                    in if i = 7
                       then (case parseInt tok of
                               None \<Rightarrow> tok
                             | Some n \<Rightarrow>
                                 (case sample_protocol_numbers n of None \<Rightarrow> tok | Some nm \<Rightarrow> nm))
                       else tok)"
    using parseLineFromLog_positional[OF h, of sample_protocol_numbers] by blast
  have "r (AVAILABLE_FIELDS_DEFAULT ! 6) = Some ''80''"
    using f[rule_format, of 6] unfolding toks by simp
  moreover have "r (AVAILABLE_FIELDS_DEFAULT ! 7) = Some ''TCP''"
    using f[rule_format, of 7] p unfolding toks by (simp add: sample_protocol_numbers_def)
  moreover have "r (AVAILABLE_FIELDS_DEFAULT ! 12) = Some ''ACCEPT''"
    using f[rule_format, of 12] unfolding toks by simp
  ultimately show ?thesis
    using r by (simp add: AVAILABLE_FIELDS_DEFAULT_def)
qed

section \<open>The lookup table builder\<close>

lemma dropWhile_stop: "\<not> P x \<Longrightarrow> dropWhile P (a @ x # r) = dropWhile P a @ x # r"
  by (induction a) auto

lemma length_split_on: "length (split_on sep s) = Suc (length (filter (\<lambda>c. c = sep) s))"
  by (induction s) (auto split: list.splits simp: split_on_nonempty)

lemma filter_dropWhile_sep:
  "\<not> P sep \<Longrightarrow> filter (\<lambda>c. c = sep) (dropWhile P s) = filter (\<lambda>c. c = sep) s"
  by (induction s) auto

lemma filter_trim_sep:
  assumes "\<not> isWhiteSpace sep"
  shows "length (filter (\<lambda>c. c = sep) (trim s)) = length (filter (\<lambda>c. c = sep) s)"
proof -
  have "filter (\<lambda>c. c = sep) (trim s) =
        rev (filter (\<lambda>c. c = sep) (dropWhile isWhiteSpace (rev (dropWhile isWhiteSpace s))))"
    by (simp add: trim_def rev_filter)
  also have "\<dots> = rev (filter (\<lambda>c. c = sep) (rev (dropWhile isWhiteSpace s)))"
    using assms by (simp add: filter_dropWhile_sep)
  also have "\<dots> = filter (\<lambda>c. c = sep) (dropWhile isWhiteSpace s)"
    by (simp add: rev_filter)
  also have "\<dots> = filter (\<lambda>c. c = sep) s"
    using assms by (simp add: filter_dropWhile_sep)
  finally show ?thesis by simp
qed

lemma length_split_trim:
  "\<not> isWhiteSpace sep \<Longrightarrow> length (split_on sep (trim s)) = length (split_on sep s)"
  by (simp add: length_split_on filter_trim_sep)

lemma join_split: "join_on sep (split_on sep s) = s"
proof (induction s)
  case Nil
  then show ?case by simp
next
  case (Cons x xs)
  obtain t ts where ts: "split_on sep xs = t # ts"
    using split_on_nonempty[of sep xs] by (cases "split_on sep xs") auto
  show ?case
  proof (cases "x = sep")
    case True
    then show ?thesis using Cons ts by simp
  next
    case False
    then show ?thesis using Cons ts by (cases ts) simp_all
  qed
qed

lemma split_on_tokens: "t \<in> set (split_on sep s) \<Longrightarrow> sep \<notin> set t"
proof (induction s arbitrary: t)
  case Nil
  then show ?case by simp
next
  case (Cons x xs)
  obtain u us where us: "split_on sep xs = u # us"
    using split_on_nonempty[of sep xs] by (cases "split_on sep xs") auto
  show ?case
  proof (cases "x = sep")
    case True
    then show ?thesis using Cons by auto
  next
    case False
    then show ?thesis using Cons us by auto
  qed
qed

lemma comma_not_space: "\<not> isWhiteSpace CHR '',''"
  by (simp add: isWhiteSpace_def)

lemma trim_three:
  "trim (a @ CHR '','' # b @ CHR '','' # c) =
     dropWhile isWhiteSpace a @ CHR '','' # b @ CHR '','' # rev (dropWhile isWhiteSpace (rev c))"
proof -
  have 1: "dropWhile isWhiteSpace (a @ CHR '','' # b @ CHR '','' # c) =
           dropWhile isWhiteSpace a @ CHR '','' # b @ CHR '','' # c"
    using comma_not_space by (rule dropWhile_stop)
  have 2: "rev (dropWhile isWhiteSpace a @ CHR '','' # b @ CHR '','' # c) =
           rev c @ CHR '','' # (rev b @ CHR '','' # rev (dropWhile isWhiteSpace a))"
    by simp
  have 3: "dropWhile isWhiteSpace (rev c @ CHR '','' # (rev b @ CHR '','' # rev (dropWhile isWhiteSpace a))) =
           dropWhile isWhiteSpace (rev c) @ CHR '','' # (rev b @ CHR '','' # rev (dropWhile isWhiteSpace a))"
    using comma_not_space by (rule dropWhile_stop)
  show ?thesis unfolding trim_def 1 2 3 by simp
qed

lemma split_trim_three:
  assumes "split_on CHR '','' line = [a, b, c]"
  shows "split_on CHR '','' (trim line) =
           [dropWhile isWhiteSpace a, b, rev (dropWhile isWhiteSpace (rev c))]"
proof -
  have line: "line = a @ CHR '','' # b @ CHR '','' # c"
    using join_split[of "CHR '',''" line] assms by simp
  have n: "CHR '','' \<notin> set a" "CHR '','' \<notin> set b" "CHR '','' \<notin> set c"
    using split_on_tokens[of _ "CHR '',''" line] assms by simp_all
  have na: "CHR '','' \<notin> set (dropWhile isWhiteSpace a)"
    using n(1) set_dropWhileD by fastforce
  have nc: "CHR '','' \<notin> set (rev (dropWhile isWhiteSpace (rev c)))"
    using n(3) set_dropWhileD[of "CHR '',''" isWhiteSpace "rev c"] by auto
  show ?thesis
    unfolding line trim_three using na n(2) nc
    by (simp add: split_on_field split_on_no_sep)
qed

lemma length_lookup_format: "length LOOKUP_DEFAULT_FORMAT = 3"
  by (simp add: LOOKUP_DEFAULT_FORMAT_def)

lemma parseCSVLine_three:
  assumes "split_on CHR '','' (trim line) = [a, b, c]"
  shows "parseCSVLine line LOOKUP_DEFAULT_FORMAT =
           (if a = [] \<or> b = [] \<or> c = [] then None
            else Some (toLowerCase (a @ '','' @ b), Some c))"
  using assms
  by (simp add: parseCSVLine_def length_lookup_format at_def serialize_def js_str_def)

lemma parseCSVLine_count:
  assumes "length (split_on CHR '','' (trim line)) \<noteq> 3"
  shows "parseCSVLine line LOOKUP_DEFAULT_FORMAT = None"
  using assms by (simp add: parseCSVLine_def length_lookup_format)

lemma length_three: "length xs = 3 \<Longrightarrow> \<exists>a b c. xs = [a, b, c]"
  by (cases xs; cases "tl xs"; cases "tl (tl xs)") auto

lemma parseCSVLine_Some_value:
  assumes "parseCSVLine line LOOKUP_DEFAULT_FORMAT = Some (k, v)"
  shows "\<exists>tag. v = Some tag \<and> tag \<noteq> []"
proof -
  have "length (split_on CHR '','' (trim line)) = 3"
    using assms parseCSVLine_count by fastforce
  then obtain a b c where "split_on CHR '','' (trim line) = [a, b, c]"
    using length_three by blast
  then show ?thesis using assms by (auto simp: parseCSVLine_three split: if_splits)
qed

lemma foldl_insertParsed_other:
  "\<forall>l\<in>set ls. \<forall>v. parseCSVLine l LOOKUP_DEFAULT_FORMAT \<noteq> Some (k, v) \<Longrightarrow>
   foldl insertParsed acc ls k = acc k"
proof (induction ls arbitrary: acc)
  case Nil
  then show ?case by simp
next
  case (Cons l ls)
  have "insertParsed acc l k = acc k"
    using Cons.prems by (auto simp: insertParsed_def split: option.splits)
  then show ?case using Cons by simp
qed

lemma foldl_insertParsed_last:
  assumes "parseCSVLine line LOOKUP_DEFAULT_FORMAT = Some (k, v)"
    and "\<forall>l\<in>set post. \<forall>v'. parseCSVLine l LOOKUP_DEFAULT_FORMAT \<noteq> Some (k, v')"
  shows "foldl insertParsed acc (pre @ line # post) k = v"
proof -
  have "foldl insertParsed acc (pre @ line # post) k =
        insertParsed (foldl insertParsed acc pre) line k"
    using foldl_insertParsed_other[OF assms(2)] by simp
  also have "\<dots> = v" using assms(1) by (simp add: insertParsed_def)
  finally show ?thesis .
qed

lemma foldl_insertParsed_dom:
  assumes "line \<in> set ls" and "parseCSVLine line LOOKUP_DEFAULT_FORMAT = Some (k, v)"
  shows "foldl insertParsed acc ls k \<noteq> None"
proof -
  let ?P = "\<lambda>l. \<exists>v'. parseCSVLine l LOOKUP_DEFAULT_FORMAT = Some (k, v')"
  have "\<exists>l\<in>set ls. ?P l" using assms by blast
  then obtain pre l post where d: "ls = pre @ l # post" "?P l" "\<forall>z\<in>set post. \<not> ?P z"
    using split_list_last_prop[of ls ?P] by blast
  then obtain v' where v': "parseCSVLine l LOOKUP_DEFAULT_FORMAT = Some (k, v')" by blast
  have "foldl insertParsed acc ls k = v'"
    unfolding d(1) using v' d(3) by (intro foldl_insertParsed_last) auto
  then show ?thesis using parseCSVLine_Some_value[OF v'] by auto
qed

lemma parseCSVLine_rejected:
  assumes "length (split_on CHR '','' (trim line)) \<noteq> 3 \<or>
           [] \<in> set (split_on CHR '','' (trim line))"
  shows "parseCSVLine line LOOKUP_DEFAULT_FORMAT = None"
proof (cases "length (split_on CHR '','' (trim line)) = 3")
  case True
  then obtain a b c where "split_on CHR '','' (trim line) = [a, b, c]"
    using length_three by blast
  then show ?thesis using assms by (auto simp: parseCSVLine_three)
next
  case False
  then show ?thesis by (rule parseCSVLine_count)
qed

lemma untrimmed_violation:
  assumes "length (split_on CHR '','' line) \<noteq> 3 \<or> [] \<in> set (split_on CHR '','' line)"
  shows "length (split_on CHR '','' (trim line)) \<noteq> 3 \<or>
         [] \<in> set (split_on CHR '','' (trim line))"
proof (cases "length (split_on CHR '','' line) = 3")
  case True
  then obtain a b c where s: "split_on CHR '','' line = [a, b, c]"
    using length_three by blast
  then have "a = [] \<or> b = [] \<or> c = []"
    using assms by auto
  then have "[] \<in> set (split_on CHR '','' (trim line))"
    unfolding split_trim_three[OF s] by auto
  then show ?thesis by simp
next
  case False
  then show ?thesis by (simp add: length_split_trim comma_not_space)
qed

text \<open>
  C7, as stated, fails: the line is trimmed before it is split, so the stored tag is the
  third token of the trimmed line. In a lookup file with CR LF line ends the first line
  below splits at its commas into three non-empty tokens, the third ending in CR, but the
  tag stored for it is \<^verbatim>\<open>web\<close> without the CR.
\<close>

theorem untrimmed_tag_counterexample:
  "split_on CHR 0x0A (trim (''80,tcp,web'' @ [CHR 0x0D, CHR 0x0A] @ ''23,tcp,ssh'')) =
     [''80,tcp,web'' @ [CHR 0x0D], ''23,tcp,ssh''] \<and>
   split_on CHR '','' (''80,tcp,web'' @ [CHR 0x0D]) = [''80'', ''tcp'', ''web'' @ [CHR 0x0D]] \<and>
   buildLookupTable (''80,tcp,web'' @ [CHR 0x0D, CHR 0x0A] @ ''23,tcp,ssh'') ''80,tcp''
     = Some ''web'' \<and>
   ''web'' \<noteq> ''web'' @ [CHR 0x0D]"
  by code_simp

text \<open>
  C7, amended. For every line of the lookup file whose trimmed text splits at its commas
  into exactly three tokens, none of them empty, \<^verbatim>\<open>parseCSVLine\<close> gives the key made of
  the first two tokens, joined by a comma and in lower case, and the third token,
  unchanged, as the value; after the line is processed the table holds that value under
  that key; the built table has an entry under that key for every buffer the line occurs
  in, and its value is that third token when no later accepted line has the same key.
\<close>

theorem parseCSVLine_accepts:
  assumes "split_on CHR '','' (trim line) = [a, b, c]"
    and "a \<noteq> []" and "b \<noteq> []" and "c \<noteq> []"
  shows "parseCSVLine line LOOKUP_DEFAULT_FORMAT = Some (toLowerCase (a @ '','' @ b), Some c) \<and>
         insertParsed acc line (toLowerCase (a @ '','' @ b)) = Some c \<and>
         (\<forall>csv. line \<in> set (split_on CHR 0x0A (trim csv)) \<longrightarrow>
                toLowerCase (a @ '','' @ b) \<in> dom (buildLookupTable csv)) \<and>
         (\<forall>csv pre post.
            split_on CHR 0x0A (trim csv) = pre @ line # post \<and>
            (\<forall>l\<in>set post. \<forall>v. parseCSVLine l LOOKUP_DEFAULT_FORMAT
                                  \<noteq> Some (toLowerCase (a @ '','' @ b), v)) \<longrightarrow>
            buildLookupTable csv (toLowerCase (a @ '','' @ b)) = Some c)"
proof -
  let ?k = "toLowerCase (a @ '','' @ b)"
  have p: "parseCSVLine line LOOKUP_DEFAULT_FORMAT = Some (?k, Some c)"
    using assms by (simp add: parseCSVLine_three)
  have i: "insertParsed acc line ?k = Some c"
    using p by (simp add: insertParsed_def)
  have d: "\<forall>csv. line \<in> set (split_on CHR 0x0A (trim csv)) \<longrightarrow> ?k \<in> dom (buildLookupTable csv)"
    using foldl_insertParsed_dom[OF _ p] by (auto simp: buildLookupTable_def)
  have l: "\<forall>csv pre post.
            split_on CHR 0x0A (trim csv) = pre @ line # post \<and>
            (\<forall>l\<in>set post. \<forall>v. parseCSVLine l LOOKUP_DEFAULT_FORMAT \<noteq> Some (?k, v)) \<longrightarrow>
            buildLookupTable csv ?k = Some c"
    using foldl_insertParsed_last[OF p] by (simp add: buildLookupTable_def)
  show ?thesis using p i d l by blast
qed


theorem parseCSVLine_accepts_witness:
  "parseCSVLine ''80,TCP,Web'' LOOKUP_DEFAULT_FORMAT = Some (''80,tcp'', Some ''Web'') \<and>
   insertParsed Map.empty ''80,TCP,Web'' ''80,tcp'' = Some ''Web'' \<and>
   ''80,tcp'' \<in> dom (buildLookupTable (''80,TCP,Web'' @ CHR 0x0A # ''23,tcp,ssh'')) \<and>
   buildLookupTable (''80,TCP,Web'' @ CHR 0x0A # ''23,tcp,ssh'') ''80,tcp'' = Some ''Web''"
proof -
  let ?csv = "''80,TCP,Web'' @ CHR 0x0A # ''23,tcp,ssh''"
  have s: "split_on CHR '','' (trim ''80,TCP,Web'') = [''80'', ''TCP'', ''Web'']"
    by (simp add: trim_def isWhiteSpace_def)
  have k: "toLowerCase (''80'' @ '','' @ ''TCP'') = ''80,tcp''"
    by code_simp
  have ls: "split_on CHR 0x0A (trim ?csv) = [] @ ''80,TCP,Web'' # [''23,tcp,ssh'']"
    by (simp add: trim_def isWhiteSpace_def)
  have other: "parseCSVLine ''23,tcp,ssh'' LOOKUP_DEFAULT_FORMAT = Some (''23,tcp'', Some ''ssh'')"
    by code_simp
  have later: "\<forall>l\<in>set [''23,tcp,ssh'']. \<forall>v. parseCSVLine l LOOKUP_DEFAULT_FORMAT \<noteq> Some (''80,tcp'', v)"
    using other by simp
  have mem: "''80,TCP,Web'' \<in> set (split_on CHR 0x0A (trim ?csv))"
    unfolding ls by simp
  note t = parseCSVLine_accepts[OF s, of Map.empty, unfolded k]
  have 1: "parseCSVLine ''80,TCP,Web'' LOOKUP_DEFAULT_FORMAT = Some (''80,tcp'', Some ''Web'')"
    and 2: "insertParsed Map.empty ''80,TCP,Web'' ''80,tcp'' = Some ''Web''"
    using t by simp_all
  have 3: "''80,tcp'' \<in> dom (buildLookupTable ?csv)"
    using t mem by blast
  have 4: "buildLookupTable ?csv ''80,tcp'' = Some ''Web''"
    using t ls later by blast
  show ?thesis using 1 2 3 4 by simp
qed

text \<open>
  C8. A line of the lookup file whose comma-split token count is not three, or one of whose
  tokens is the empty string, is rejected, whether the tokens are those of the line as it
  stands or of the trimmed line: \<^verbatim>\<open>parseCSVLine\<close> returns \<^verbatim>\<open>null\<close>, and processing
  the line leaves the table as it was, with no entry added and none changed.
\<close>

theorem parseCSVLine_rejects:
  assumes "length (split_on CHR '','' line) \<noteq> 3 \<or> [] \<in> set (split_on CHR '','' line) \<or>
           length (split_on CHR '','' (trim line)) \<noteq> 3 \<or>
           [] \<in> set (split_on CHR '','' (trim line))"
  shows "parseCSVLine line LOOKUP_DEFAULT_FORMAT = None \<and> insertParsed acc line = acc"
proof -
  have "length (split_on CHR '','' (trim line)) \<noteq> 3 \<or>
        [] \<in> set (split_on CHR '','' (trim line))"
    using assms untrimmed_violation[of line] by blast
  then have "parseCSVLine line LOOKUP_DEFAULT_FORMAT = None"
    by (rule parseCSVLine_rejected)
  then show ?thesis by (simp add: insertParsed_def)
qed

theorem parseCSVLine_rejects_witness:
  "parseCSVLine ''80,tcp'' LOOKUP_DEFAULT_FORMAT = None \<and>
   insertParsed [''22,tcp'' \<mapsto> ''ssh''] ''80,tcp'' = [''22,tcp'' \<mapsto> ''ssh''] \<and>
   parseCSVLine ''80,,web'' LOOKUP_DEFAULT_FORMAT = None \<and>
   insertParsed [''22,tcp'' \<mapsto> ''ssh''] ''80,,web'' = [''22,tcp'' \<mapsto> ''ssh'']"
proof -
  have a: "length (split_on CHR '','' ''80,tcp'') \<noteq> 3"
    by simp
  have b: "[] \<in> set (split_on CHR '','' ''80,,web'')"
    by simp
  show ?thesis
    using parseCSVLine_rejects[of "''80,tcp''" "[''22,tcp'' \<mapsto> ''ssh'']"]
      parseCSVLine_rejects[of "''80,,web''" "[''22,tcp'' \<mapsto> ''ssh'']"] a b
    by blast
qed

text \<open>
  C9. When a line of the buffer is accepted with a key and a tag and no later line of the
  buffer is accepted with the same key, the built table maps the key to that tag, whatever
  lines with this key come before it: the last accepted line with a key decides.
\<close>

theorem buildLookupTable_last_write_wins:
  assumes "split_on CHR 0x0A (trim csv) = pre @ line # post"
    and "parseCSVLine line LOOKUP_DEFAULT_FORMAT = Some (k, Some tag)"
    and "\<forall>l\<in>set post. \<forall>v. parseCSVLine l LOOKUP_DEFAULT_FORMAT \<noteq> Some (k, v)"
  shows "buildLookupTable csv k = Some tag"
  unfolding buildLookupTable_def assms(1)
  using assms(2,3) by (rule foldl_insertParsed_last)


theorem buildLookupTable_last_write_wins_witness:
  "buildLookupTable
     (''80,tcp,web'' @ CHR 0x0A # ''80,TCP,other'' @ CHR 0x0A # ''23,tcp,ssh'') ''80,tcp''
   = Some ''other''"
proof -
  let ?csv = "''80,tcp,web'' @ CHR 0x0A # ''80,TCP,other'' @ CHR 0x0A # ''23,tcp,ssh''"
  have ls: "split_on CHR 0x0A (trim ?csv) = [''80,tcp,web''] @ ''80,TCP,other'' # [''23,tcp,ssh'']"
    by (simp add: trim_def isWhiteSpace_def)
  have line: "parseCSVLine ''80,TCP,other'' LOOKUP_DEFAULT_FORMAT = Some (''80,tcp'', Some ''other'')"
    by code_simp
  have other: "parseCSVLine ''23,tcp,ssh'' LOOKUP_DEFAULT_FORMAT = Some (''23,tcp'', Some ''ssh'')"
    by code_simp
  have later: "\<forall>l\<in>set [''23,tcp,ssh'']. \<forall>v. parseCSVLine l LOOKUP_DEFAULT_FORMAT \<noteq> Some (''80,tcp'', v)"
    using other by simp
  show ?thesis
    using ls line later by (rule buildLookupTable_last_write_wins)
qed

section \<open>The aggregator\<close>

lemma Map_get_Map_set:
  "Map_get (Map_set m k v) k' = (if k' = k then Some v else Map_get m k')"
  by (induction m) (auto simp: Map_get_def)

lemma values_Map_set: "snd ` set (Map_set m k v) \<subseteq> insert v (snd ` set m)"
proof (induction m)
  case Nil
  then show ?case by simp
next
  case (Cons p m)
  then show ?case by (cases p) (auto split: if_splits)
qed

lemma totalCount_Map_set:
  "totalCount (Map_set m k v) + (case Map_get m k of None \<Rightarrow> 0 | Some w \<Rightarrow> numValue w)
     = totalCount m + numValue v"
  by (induction m) (auto simp: Map_get_def totalCount_def)

lemma countOf_cases:
  "countOf m k = (case Map_get m k of None \<Rightarrow> 0 | Some w \<Rightarrow> numValue w)"
  by (simp add: countOf_def split: option.splits jsnum.splits)

lemma countKey_eq:
  "countKey m k = Map_set (if \<not> truthy (Map_get m k) then Map_set m k (Num 0) else m) k
                    (Num (countOf m k + 1))"
proof (cases "truthy (Map_get m k)")
  case True
  then obtain n where "Map_get m k = Some (Num n)"
    by (cases "Map_get m k" rule: truthy.cases) auto
  then show ?thesis using True by (simp add: countKey_def countOf_def)
next
  case False
  then have "countOf m k = 0"
    by (cases "Map_get m k" rule: truthy.cases) (auto simp: countOf_def)
  then show ?thesis using False by (simp add: countKey_def Map_get_Map_set)
qed

lemma Map_get_countKey:
  "Map_get (countKey m k) k' = (if k' = k then Some (Num (countOf m k + 1)) else Map_get m k')"
  by (simp add: countKey_eq Map_get_Map_set)

lemma countOf_countKey:
  "countOf (countKey m k) k' = countOf m k' + (if k' = k then 1 else 0)"
  by (simp add: countOf_def Map_get_countKey)

lemma totalCount_countKey: "totalCount (countKey m k) = totalCount m + 1"
proof (cases "truthy (Map_get m k)")
  case True
  then show ?thesis
    using totalCount_Map_set[of m k "Num (countOf m k + 1)"]
    by (simp add: countKey_eq countOf_cases)
next
  case False
  let ?m1 = "Map_set m k (Num 0)"
  have 0: "countOf m k = 0"
    using False by (cases "Map_get m k" rule: truthy.cases) (auto simp: countOf_def)
  have 1: "totalCount ?m1 = totalCount m"
    using totalCount_Map_set[of m k "Num 0"] 0 by (simp add: countOf_cases)
  have "totalCount (Map_set ?m1 k (Num (countOf m k + 1))) = totalCount ?m1 + 1"
    using totalCount_Map_set[of ?m1 k "Num (countOf m k + 1)"] 0
    by (simp add: Map_get_Map_set)
  then show ?thesis using False 1 by (simp add: countKey_eq)
qed

lemma no_NaN_countKey:
  assumes "NaN \<notin> snd ` set m"
  shows "NaN \<notin> snd ` set (countKey m k)"
proof -
  have "snd ` set (countKey m k) \<subseteq> insert (Num (countOf m k + 1)) (insert (Num 0) (snd ` set m))"
    unfolding countKey_eq
    using values_Map_set[of "Map_set m k (Num 0)" k "Num (countOf m k + 1)"]
      values_Map_set[of m k "Num 0"] values_Map_set[of m k "Num (countOf m k + 1)"]
    by (auto split: if_splits)
  then show ?thesis using assms by auto
qed

lemma tagCounts_countLog:
  "tagCounts (countLog table st log) =
     countKey (tagCounts st)
       (case table (serialize (log ''dstport'') (log ''protocol'')) of
          None \<Rightarrow> ''untagged'' | Some t \<Rightarrow> t)"
  by (simp add: countLog_def Let_def)

lemma portProtocolCounts_countLog:
  "portProtocolCounts (countLog table st log) =
     countKey (portProtocolCounts st) (serialize (log ''dstport'') (log ''protocol''))"
  by (simp add: countLog_def Let_def)

lemma foldl_countLog_total:
  "totalCount (tagCounts (foldl (countLog table) st logs)) =
     totalCount (tagCounts st) + length logs \<and>
   totalCount (portProtocolCounts (foldl (countLog table) st logs)) =
     totalCount (portProtocolCounts st) + length logs"
proof (induction logs arbitrary: st)
  case Nil
  then show ?case by simp
next
  case (Cons log logs)
  show ?case
    unfolding foldl_Cons
    by (simp add: Cons.IH tagCounts_countLog portProtocolCounts_countLog totalCount_countKey)
qed

lemma foldl_countLog_no_NaN:
  "NaN \<notin> snd ` set (tagCounts st) \<Longrightarrow> NaN \<notin> snd ` set (portProtocolCounts st) \<Longrightarrow>
   NaN \<notin> snd ` set (tagCounts (foldl (countLog table) st logs)) \<and>
   NaN \<notin> snd ` set (portProtocolCounts (foldl (countLog table) st logs))"
proof (induction logs arbitrary: st)
  case Nil
  then show ?case by simp
next
  case (Cons log logs)
  show ?case
    unfolding foldl_Cons
    by (rule Cons.IH)
       (use Cons.prems in \<open>simp_all add: tagCounts_countLog portProtocolCounts_countLog no_NaN_countKey\<close>)
qed

text \<open>
  C4. The aggregation pass drops no record. For every lookup table and every list of flow
  records, the counts of the tag table add up to the number of records, and so do the
  counts of the port/protocol table; no count is \<^verbatim>\<open>NaN\<close>. Each single record raises
  the count of exactly one tag by one and the count of exactly one port/protocol key by
  one, and leaves every other count as it was.
\<close>

theorem aggregate_counts_every_record:
  "totalCount (tagCounts (aggregate table logs)) = length logs \<and>
   totalCount (portProtocolCounts (aggregate table logs)) = length logs \<and>
   NaN \<notin> snd ` set (tagCounts (aggregate table logs)) \<and>
   NaN \<notin> snd ` set (portProtocolCounts (aggregate table logs)) \<and>
   (\<forall>st log. \<exists>tag key.
      (\<forall>k. countOf (tagCounts (countLog table st log)) k =
             countOf (tagCounts st) k + (if k = tag then 1 else 0)) \<and>
      (\<forall>k. countOf (portProtocolCounts (countLog table st log)) k =
             countOf (portProtocolCounts st) k + (if k = key then 1 else 0)))"
proof -
  have t: "totalCount (tagCounts initialCounts) = 0" "totalCount (portProtocolCounts initialCounts) = 0"
    by (simp_all add: initialCounts_def totalCount_def)
  have n: "NaN \<notin> snd ` set (tagCounts initialCounts)" "NaN \<notin> snd ` set (portProtocolCounts initialCounts)"
    by (simp_all add: initialCounts_def)
  have 1: "totalCount (tagCounts (aggregate table logs)) = length logs"
    and 2: "totalCount (portProtocolCounts (aggregate table logs)) = length logs"
    unfolding aggregate_def using foldl_countLog_total[of table initialCounts logs] t by simp_all
  have 3: "NaN \<notin> snd ` set (tagCounts (aggregate table logs))"
    and 4: "NaN \<notin> snd ` set (portProtocolCounts (aggregate table logs))"
    unfolding aggregate_def using foldl_countLog_no_NaN[OF n, of table logs] by simp_all
  have 5: "\<forall>st log. \<exists>tag key.
      (\<forall>k. countOf (tagCounts (countLog table st log)) k =
             countOf (tagCounts st) k + (if k = tag then 1 else 0)) \<and>
      (\<forall>k. countOf (portProtocolCounts (countLog table st log)) k =
             countOf (portProtocolCounts st) k + (if k = key then 1 else 0))"
    unfolding tagCounts_countLog portProtocolCounts_countLog countOf_countKey by blast
  show ?thesis using 1 2 3 4 5 by blast
qed


theorem aggregate_counts_every_record_witness:
  "totalCount (tagCounts (aggregate [''80,tcp'' \<mapsto> ''web'']
     [ [''dstport'' \<mapsto> ''80'', ''protocol'' \<mapsto> ''TCP''],
      [''dstport'' \<mapsto> ''22'', ''protocol'' \<mapsto> ''TCP''],
      [''dstport'' \<mapsto> ''80'', ''protocol'' \<mapsto> ''tcp'']])) = 3 \<and>
   totalCount (portProtocolCounts (aggregate [''80,tcp'' \<mapsto> ''web'']
     [ [''dstport'' \<mapsto> ''80'', ''protocol'' \<mapsto> ''TCP''],
      [''dstport'' \<mapsto> ''22'', ''protocol'' \<mapsto> ''TCP''],
      [''dstport'' \<mapsto> ''80'', ''protocol'' \<mapsto> ''tcp'']])) = 3"
  using aggregate_counts_every_record[of "[''80,tcp'' \<mapsto> ''web'']"
      "[ [''dstport'' \<mapsto> ''80'', ''protocol'' \<mapsto> ''TCP''],
        [''dstport'' \<mapsto> ''22'', ''protocol'' \<mapsto> ''TCP''],
        [''dstport'' \<mapsto> ''80'', ''protocol'' \<mapsto> ''tcp'']]"]
  by simp

text \<open>
  C5. The tag table starts with \<^verbatim>\<open>untagged\<close> at 0. For a flow record whose join key
  has no entry in the lookup table, the loop body raises the count of \<^verbatim>\<open>untagged\<close> by
  exactly one, in whatever state the tag table is, and leaves the entry of every other
  tag as it was.
\<close>

theorem untagged_fallback:
  assumes "table (serialize (log ''dstport'') (log ''protocol'')) = None"
  shows "Map_get (tagCounts initialCounts) ''untagged'' = Some (Num 0) \<and>
         Map_get (tagCounts (countLog table st log)) ''untagged'' =
           Some (Num (countOf (tagCounts st) ''untagged'' + 1)) \<and>
         (\<forall>k. k \<noteq> ''untagged'' \<longrightarrow>
              Map_get (tagCounts (countLog table st log)) k = Map_get (tagCounts st) k)"
proof -
  have "Map_get (tagCounts initialCounts) ''untagged'' = Some (Num 0)"
    by (simp add: initialCounts_def Map_get_def)
  then show ?thesis
    using assms by (simp add: tagCounts_countLog Map_get_countKey)
qed


theorem untagged_fallback_witness:
  "Map_get (tagCounts (countLog [''80,tcp'' \<mapsto> ''web''] initialCounts
      [''dstport'' \<mapsto> ''22'', ''protocol'' \<mapsto> ''TCP''])) ''untagged'' = Some (Num 1) \<and>
   Map_get (tagCounts (countLog [''80,tcp'' \<mapsto> ''web''] initialCounts
      [''dstport'' \<mapsto> ''22'', ''protocol'' \<mapsto> ''TCP''])) ''web'' = None"
proof -
  let ?table = "[''80,tcp'' \<mapsto> ''web'']"
  let ?log = "[''dstport'' \<mapsto> ''22'', ''protocol'' \<mapsto> ''TCP'']"
  have k: "serialize (?log ''dstport'') (?log ''protocol'') = ''22,tcp''"
    by code_simp
  have h: "?table (serialize (?log ''dstport'') (?log ''protocol'')) = None"
    unfolding k by simp
  have z: "countOf (tagCounts initialCounts) ''untagged'' = 0"
    "Map_get (tagCounts initialCounts) ''web'' = None"
    by (simp_all add: countOf_def initialCounts_def Map_get_def)
  show ?thesis
    using untagged_fallback[where table = ?table and log = ?log and st = initialCounts] h z
    by simp
qed

section \<open>Letter case and the join\<close>

lemma of_char_toLower:
  "(of_char (toLower c) :: nat) =
     (let n = of_char c
      in if (65 \<le> n \<and> n \<le> 90) \<or> (192 \<le> n \<and> n \<le> 222 \<and> n \<noteq> 215) then n + 32 else n)"
  by (simp add: toLower_def Let_def)

lemma isWhiteSpace_toLower: "isWhiteSpace (toLower c) = isWhiteSpace c"
  unfolding isWhiteSpace_iff of_char_toLower by (auto simp: Let_def)

lemma isDigit_toLower: "isDigit (toLower c) = isDigit c"
  unfolding isDigit_def of_char_toLower by (auto simp: Let_def)

lemma toLower_digit: "isDigit c \<Longrightarrow> toLower c = c"
  by (simp add: isDigit_def toLower_def Let_def)

lemma toLower_minus: "toLower c = CHR ''-'' \<longleftrightarrow> c = CHR ''-''"
  by (simp only: char_eq_code[of _ "CHR ''-''"] of_char_toLower) (auto simp: Let_def)

lemma toLower_plus: "toLower c = CHR ''+'' \<longleftrightarrow> c = CHR ''+''"
  by (simp only: char_eq_code[of _ "CHR ''+''"] of_char_toLower) (auto simp: Let_def)

lemma dropWhile_space_toLowerCase:
  "dropWhile isWhiteSpace (toLowerCase s) = toLowerCase (dropWhile isWhiteSpace s)"
  by (induction s) (simp_all add: toLowerCase_def isWhiteSpace_toLower)

lemma takeWhile_digit_toLowerCase:
  "takeWhile isDigit (toLowerCase s) = takeWhile isDigit s"
  by (induction s) (simp_all add: toLowerCase_def isDigit_toLower toLower_digit)

lemma parseInt_toLowerCase: "parseInt (toLowerCase s) = parseInt s"
proof -
  let ?S = "dropWhile isWhiteSpace s"
  have S: "dropWhile isWhiteSpace (toLowerCase s) = toLowerCase ?S"
    by (rule dropWhile_space_toLowerCase)
  show ?thesis
  proof (cases ?S)
    case Nil
    show ?thesis unfolding parseInt_def S Nil by (simp add: toLowerCase_def)
  next
    case (Cons c cs)
    have tl: "takeWhile isDigit (map toLower cs) = takeWhile isDigit cs"
      using takeWhile_digit_toLowerCase[of cs] by (simp add: toLowerCase_def)
    have all: "takeWhile isDigit (toLower c # map toLower cs) = takeWhile isDigit (c # cs)"
      using takeWhile_digit_toLowerCase[of "c # cs"] by (simp add: toLowerCase_def)
    show ?thesis
      unfolding parseInt_def S Cons
      using tl all by (simp add: toLowerCase_def toLower_minus toLower_plus Let_def)
  qed
qed

lemma parseInt_cong: "sameUpToCase s t \<Longrightarrow> parseInt s = parseInt t"
  using parseInt_toLowerCase[of s] parseInt_toLowerCase[of t] by (simp add: sameUpToCase_def)

lemma handleFields_cong:
  assumes "sameUpToCase p p'"
  shows "sameUpToCase (handleFields pn key p) (handleFields pn key p')"
proof (cases "key = ''protocol''")
  case True
  then show ?thesis
    using assms parseInt_cong[OF assms]
    by (auto simp: handleFields_protocol sameUpToCase_def split: option.splits)
next
  case False
  then show ?thesis using assms by (simp add: handleFields_other)
qed

lemma serialize_cong:
  "sameUpToCase a a' \<Longrightarrow> sameUpToCase b b' \<Longrightarrow>
   serialize (Some a) (Some b) = serialize (Some a') (Some b')"
  by (simp add: serialize_def js_str_def sameUpToCase_def toLowerCase_def)

lemma countLog_cong:
  "serialize (log ''dstport'') (log ''protocol'') = serialize (log' ''dstport'') (log' ''protocol'')
   \<Longrightarrow> countLog table st log = countLog table st log'"
  by (simp add: countLog_def)

lemma foldl_countLog_cong:
  "list_all2 (\<lambda>r r'. serialize (r ''dstport'') (r ''protocol'') =
                      serialize (r' ''dstport'') (r' ''protocol'')) logs logs' \<Longrightarrow>
   foldl (countLog table) st logs = foldl (countLog table) st logs'"
proof (induction logs logs' arbitrary: st rule: list_all2_induct)
  case Nil
  then show ?case by simp
next
  case (Cons r logs r' logs')
  then show ?case using countLog_cong[of r r' table st] by simp
qed

lemma parseLineFromLog_variant:
  assumes "logLineVariant l l'"
  shows "rel_option (\<lambda>r r'. serialize (r ''dstport'') (r ''protocol'') =
                             serialize (r' ''dstport'') (r' ''protocol''))
           (parseLineFromLog pn l AVAILABLE_FIELDS_DEFAULT)
           (parseLineFromLog pn l' AVAILABLE_FIELDS_DEFAULT)"
proof (cases "length (split_on CHR '' '' (trim l)) = 14")
  case True
  let ?t = "split_on CHR '' '' (trim l)" and ?t' = "split_on CHR '' '' (trim l')"
  have len': "length ?t' = 14" and d: "sameUpToCase (?t ! 6) (?t' ! 6)"
    and p: "sameUpToCase (?t ! 7) (?t' ! 7)"
    using assms True by (simp_all add: logLineVariant_def Let_def)
  obtain r where r: "parseLineFromLog pn l AVAILABLE_FIELDS_DEFAULT = Some r"
    "\<forall>i<length AVAILABLE_FIELDS_DEFAULT. r (AVAILABLE_FIELDS_DEFAULT ! i) =
        Some (handleFields pn (AVAILABLE_FIELDS_DEFAULT ! i) (?t ! i))"
    using parseLineFromLog_Some[OF distinct_fields, of l pn] True length_fields by auto
  obtain r' where r': "parseLineFromLog pn l' AVAILABLE_FIELDS_DEFAULT = Some r'"
    "\<forall>i<length AVAILABLE_FIELDS_DEFAULT. r' (AVAILABLE_FIELDS_DEFAULT ! i) =
        Some (handleFields pn (AVAILABLE_FIELDS_DEFAULT ! i) (?t' ! i))"
    using parseLineFromLog_Some[OF distinct_fields, of l' pn] len' length_fields by auto
  have rd: "r ''dstport'' = Some (?t ! 6)" "r' ''dstport'' = Some (?t' ! 6)"
    using r(2)[rule_format, of 6] r'(2)[rule_format, of 6]
    by (simp_all add: length_fields dstport_field handleFields_other)
  have rp: "r ''protocol'' = Some (handleFields pn ''protocol'' (?t ! 7))"
    "r' ''protocol'' = Some (handleFields pn ''protocol'' (?t' ! 7))"
    using r(2)[rule_format, of 7] r'(2)[rule_format, of 7]
    by (simp_all add: length_fields protocol_field)
  have "serialize (r ''dstport'') (r ''protocol'') = serialize (r' ''dstport'') (r' ''protocol'')"
    unfolding rd rp using d handleFields_cong[OF p] by (rule serialize_cong)
  then show ?thesis using r(1) r'(1) by simp
next
  case False
  then have "length (split_on CHR '' '' (trim l')) \<noteq> 14"
    using assms by (simp add: logLineVariant_def Let_def)
  then show ?thesis
    using False by (simp add: parseLineFromLog_None length_fields)
qed

lemma parseLog_variant:
  assumes "list_all2 logLineVariant ls ls'"
  shows "list_all2 (\<lambda>r r'. serialize (r ''dstport'') (r ''protocol'') =
                            serialize (r' ''dstport'') (r' ''protocol''))
           (map the (filter (\<lambda>parsed. parsed \<noteq> None)
              (map (\<lambda>line. parseLineFromLog pn line AVAILABLE_FIELDS_DEFAULT) ls)))
           (map the (filter (\<lambda>parsed. parsed \<noteq> None)
              (map (\<lambda>line. parseLineFromLog pn line AVAILABLE_FIELDS_DEFAULT) ls')))"
  using assms
proof (induction ls ls' rule: list_all2_induct)
  case Nil
  then show ?case by simp
next
  case (Cons l ls l' ls')
  show ?case
    using parseLineFromLog_variant[OF Cons.hyps(1), of pn] Cons.IH
    by (cases "parseLineFromLog pn l AVAILABLE_FIELDS_DEFAULT";
        cases "parseLineFromLog pn l' AVAILABLE_FIELDS_DEFAULT") simp_all
qed

lemma sameUpToCase_Nil: "sameUpToCase a a' \<Longrightarrow> (a = [] \<longleftrightarrow> a' = [])"
  by (auto simp: sameUpToCase_def toLowerCase_def)

lemma parseCSVLine_variant:
  assumes "csvLineVariant l l'"
  shows "parseCSVLine l LOOKUP_DEFAULT_FORMAT = parseCSVLine l' LOOKUP_DEFAULT_FORMAT"
proof (cases "length (split_on CHR '','' (trim l)) = 3")
  case True
  then obtain a b c where s: "split_on CHR '','' (trim l) = [a, b, c]"
    using length_three by blast
  have "length (split_on CHR '','' (trim l')) = 3"
    using assms True by (simp add: csvLineVariant_def Let_def)
  then obtain a' b' c' where s': "split_on CHR '','' (trim l') = [a', b', c']"
    using length_three by blast
  have v: "sameUpToCase a a'" "sameUpToCase b b'" "c = c'"
    using assms s s' by (simp_all add: csvLineVariant_def)
  have "toLowerCase (a @ '','' @ b) = toLowerCase (a' @ '','' @ b')"
    using v(1,2) by (simp add: sameUpToCase_def toLowerCase_def)
  then show ?thesis
    using sameUpToCase_Nil[OF v(1)] sameUpToCase_Nil[OF v(2)] v(3)
    by (simp add: parseCSVLine_three[OF s] parseCSVLine_three[OF s'])
next
  case False
  then have "length (split_on CHR '','' (trim l')) \<noteq> 3"
    using assms by (simp add: csvLineVariant_def Let_def)
  then show ?thesis using False by (simp add: parseCSVLine_count)
qed

lemma foldl_insertParsed_variant:
  "list_all2 csvLineVariant ls ls' \<Longrightarrow> foldl insertParsed acc ls = foldl insertParsed acc ls'"
proof (induction ls ls' arbitrary: acc rule: list_all2_induct)
  case Nil
  then show ?case by simp
next
  case (Cons l ls l' ls')
  have "insertParsed acc l = insertParsed acc l'"
    using parseCSVLine_variant[OF Cons.hyps(1)] by (simp add: insertParsed_def)
  then show ?case using Cons.IH by simp
qed

text \<open>
  C3. The join is case-insensitive. The key of a lookup entry and the join key of a flow
  record are both made by \<^verbatim>\<open>serialize\<close>, so values that differ in letter case only
  give the same key. For a flow record with destination port 80 and a protocol that is
  \<^verbatim>\<open>tcp\<close> in any letter case, and a lookup table with \<^verbatim>\<open>web\<close> under \<^verbatim>\<open>80,tcp\<close>,
  the loop body raises the tag count of \<^verbatim>\<open>web\<close> by one and the port/protocol count of
  \<^verbatim>\<open>80,tcp\<close> by one. And when the lines of two lookup buffers, and the lines of two log
  buffers, are variants of each other one by one (\<^const>\<open>csvLineVariant\<close>,
  \<^const>\<open>logLineVariant\<close>), as they are when only the letter case of destination ports
  and protocols has been changed, the two count tables that \<^verbatim>\<open>main\<close> computes from them
  are the same.
\<close>

theorem join_is_case_insensitive:
  "(log ''dstport'' = Some ''80'' \<and> log ''protocol'' = Some p \<and> sameUpToCase p ''tcp'' \<and>
    table ''80,tcp'' = Some ''web'' \<longrightarrow>
      countOf (tagCounts (countLog table st log)) ''web'' =
        countOf (tagCounts st) ''web'' + 1 \<and>
      countOf (portProtocolCounts (countLog table st log)) ''80,tcp'' =
        countOf (portProtocolCounts st) ''80,tcp'' + 1) \<and>
   (sameUpToCase d d' \<and> sameUpToCase q q' \<longrightarrow>
      serialize (Some d) (Some q) = serialize (Some d') (Some q')) \<and>
   (list_all2 csvLineVariant (split_on CHR 0x0A (trim lookupBuffer))
                             (split_on CHR 0x0A (trim lookupBuffer')) \<and>
    list_all2 logLineVariant (split_on CHR 0x0A (trim logfileBuffer))
                             (split_on CHR 0x0A (trim logfileBuffer')) \<longrightarrow>
      mainCounts protocol_numbers lookupBuffer logfileBuffer =
      mainCounts protocol_numbers lookupBuffer' logfileBuffer')"
proof -
  have a: "countOf (tagCounts (countLog table st log)) ''web'' =
             countOf (tagCounts st) ''web'' + 1 \<and>
           countOf (portProtocolCounts (countLog table st log)) ''80,tcp'' =
             countOf (portProtocolCounts st) ''80,tcp'' + 1"
    if h: "log ''dstport'' = Some ''80''" "log ''protocol'' = Some p" "sameUpToCase p ''tcp''"
      "table ''80,tcp'' = Some ''web''"
  proof -
    have "toLowerCase ''80'' = ''80''" "toLowerCase '','' = '',''" "toLowerCase ''tcp'' = ''tcp''"
      by code_simp+
    then have k: "serialize (log ''dstport'') (log ''protocol'') = ''80,tcp''"
      using h(1-3) by (simp add: serialize_def js_str_def sameUpToCase_def toLowerCase_def)
    show ?thesis
      unfolding tagCounts_countLog portProtocolCounts_countLog k
      using h(4) by (simp add: countOf_countKey)
  qed
  have c: "mainCounts protocol_numbers lookupBuffer logfileBuffer =
           mainCounts protocol_numbers lookupBuffer' logfileBuffer'"
    if v: "list_all2 csvLineVariant (split_on CHR 0x0A (trim lookupBuffer))
                                    (split_on CHR 0x0A (trim lookupBuffer'))"
      "list_all2 logLineVariant (split_on CHR 0x0A (trim logfileBuffer))
                                (split_on CHR 0x0A (trim logfileBuffer'))"
  proof -
    have t: "buildLookupTable lookupBuffer = buildLookupTable lookupBuffer'"
      unfolding buildLookupTable_def using v(1) by (rule foldl_insertParsed_variant)
    show ?thesis
      unfolding mainCounts_def aggregate_def t parseLog_def
      by (rule foldl_countLog_cong) (rule parseLog_variant[OF v(2)])
  qed
  show ?thesis using a c serialize_cong by blast
qed


theorem join_is_case_insensitive_witness:
  "countOf (tagCounts (countLog [''80,tcp'' \<mapsto> ''web''] initialCounts
      [''dstport'' \<mapsto> ''80'', ''protocol'' \<mapsto> ''TCP''])) ''web'' = 1 \<and>
   countOf (portProtocolCounts (countLog [''80,tcp'' \<mapsto> ''web''] initialCounts
      [''dstport'' \<mapsto> ''80'', ''protocol'' \<mapsto> ''TCP''])) ''80,tcp'' = 1 \<and>
   serialize (Some ''80'') (Some ''TCP'') = serialize (Some ''80'') (Some ''tcp'') \<and>
   mainCounts sample_protocol_numbers
     (''80,tcp,web'' @ CHR 0x0A # ''23,TCP,ssh'')
     (''2 1 eni-abc 10.0.0.1 10.0.0.2 443 80 tcp 10 1000 1 2 ACCEPT OK'' @ CHR 0x0A #
      ''2 1 eni-abc 10.0.0.1 10.0.0.2 22 23 6 5 500 1 2 REJECT OK'') =
   mainCounts sample_protocol_numbers
     (''80,TCP,web'' @ CHR 0x0A # ''23,tcp,ssh'')
     (''2 1 eni-abc 10.0.0.1 10.0.0.2 443 80 TCP 10 1000 1 2 ACCEPT OK'' @ CHR 0x0A #
      ''2 1 eni-abc 10.0.0.1 10.0.0.2 22 23 6 5 500 1 2 REJECT OK'')"
proof -
  let ?table = "[''80,tcp'' \<mapsto> ''web'']"
  let ?log = "[''dstport'' \<mapsto> ''80'', ''protocol'' \<mapsto> ''TCP'']"
  let ?csv = "''80,tcp,web'' @ CHR 0x0A # ''23,TCP,ssh''"
  let ?csv' = "''80,TCP,web'' @ CHR 0x0A # ''23,tcp,ssh''"
  let ?logs = "''2 1 eni-abc 10.0.0.1 10.0.0.2 443 80 tcp 10 1000 1 2 ACCEPT OK'' @ CHR 0x0A #
      ''2 1 eni-abc 10.0.0.1 10.0.0.2 22 23 6 5 500 1 2 REJECT OK''"
  let ?logs' = "''2 1 eni-abc 10.0.0.1 10.0.0.2 443 80 TCP 10 1000 1 2 ACCEPT OK'' @ CHR 0x0A #
      ''2 1 eni-abc 10.0.0.1 10.0.0.2 22 23 6 5 500 1 2 REJECT OK''"
  have h1: "?log ''dstport'' = Some ''80''" "?log ''protocol'' = Some ''TCP''"
    "?table ''80,tcp'' = Some ''web''"
    by simp_all
  have h2: "sameUpToCase ''TCP'' ''tcp''" "sameUpToCase ''80'' ''80''"
    by code_simp+
  have h3: "list_all2 csvLineVariant (split_on CHR 0x0A (trim ?csv)) (split_on CHR 0x0A (trim ?csv'))"
    by code_simp
  have h4: "list_all2 logLineVariant (split_on CHR 0x0A (trim ?logs))
              (split_on CHR 0x0A (trim ?logs'))"
    by code_simp
  have z: "countOf (tagCounts initialCounts) ''web'' = 0"
    "countOf (portProtocolCounts initialCounts) ''80,tcp'' = 0"
    by (simp_all add: countOf_def initialCounts_def Map_get_def)
  note t = join_is_case_insensitive[where log = ?log and p = "''TCP''" and table = ?table
      and st = initialCounts and d = "''80''" and d' = "''80''" and q = "''TCP''"
      and q' = "''tcp''" and lookupBuffer = ?csv and lookupBuffer' = ?csv'
      and logfileBuffer = ?logs and logfileBuffer' = ?logs'
      and protocol_numbers = sample_protocol_numbers]
  have a: "countOf (tagCounts (countLog ?table initialCounts ?log)) ''web'' = 1"
    and b: "countOf (portProtocolCounts (countLog ?table initialCounts ?log)) ''80,tcp'' = 1"
    using t h1 h2(1) z by simp_all
  have c: "serialize (Some ''80'') (Some ''TCP'') = serialize (Some ''80'') (Some ''tcp'')"
    using t h2 by blast
  have d: "mainCounts sample_protocol_numbers ?csv ?logs =
           mainCounts sample_protocol_numbers ?csv' ?logs'"
    using t h3 h4 by blast
  show ?thesis using a b c d by blast
qed

end
